theory Spec2Isabelle
  imports Complex_Main
begin

section \<open>Texts, runes and the arithmetic of the source\<close>

text \<open>
  The two programs (\<^verbatim>\<open>Cipher/go.go\<close> and \<^verbatim>\<open>Decipher/go.go\<close>) take Go strings, which are
  sequences of bytes (\<open>gostring\<close>). Their loops read a string with
  \<^verbatim>\<open>for _, char := range s\<close>, which decodes UTF-8 and yields the code points of the
  string, with one U+FFFD for each byte that is not part of a well-formed sequence, and
  they build their results with \<^verbatim>\<open>WriteRune\<close>, which encodes a code point in UTF-8.
  \<open>decodeRunes\<close> and \<open>encodeRunes\<close> below are these two steps.

  What a loop sees of a string is the list of its code points (\<open>str\<close>, with \<open>rune\<close>
  the signed integer type of the source). \<open>applyCipher\<close> and \<open>decipherWithShift\<close> below
  are the loops of the two functions on this list; \<open>applyCipherString\<close> and
  \<open>decipherWithShiftString\<close> are the two functions on Go strings, with the decoding
  before the loop and the encoding after it. The scorer and the searches are defined on
  the code points of their argument.

  The letters are written as their code points: \<open>65\<close> is A, \<open>90\<close> is Z, \<open>97\<close> is a,
  \<open>122\<close> is z, \<open>69\<close> is E, \<open>32\<close> is the space. \<open>runes\<close> turns a string literal of
  the theory into a text.

  No function of the source can fail: the only integer division is by the constant 26,
  the two index expressions \<^verbatim>\<open>freqOrder[0]\<close> and \<^verbatim>\<open>potentialShifts[0]\<close> are guarded by a
  length test, and the division of the scorer is a floating-point one. The functions
  are therefore total functions with plain results.
\<close>

type_synonym byte = nat
type_synonym gostring = "byte list"
type_synonym rune = int
type_synonym str = "rune list"

definition runes :: "string \<Rightarrow> str" where
  "runes s = map of_char s"

text \<open>
  The remainder operator \<^verbatim>\<open>%\<close> of the source truncates towards zero: its result has the
  sign of the dividend. The shift is an \<^verbatim>\<open>int\<close>; it is modelled by an unbounded integer,
  which no operation of the source overflows (the shift is reduced below 26 at once).
\<close>

definition trunc_mod :: "int \<Rightarrow> int \<Rightarrow> int" where
  "trunc_mod a b = sgn a * (\<bar>a\<bar> mod \<bar>b\<bar>)"

text \<open>
  \<^verbatim>\<open>len(s)\<close> is the number of bytes of a string, not the number of its code points:
  \<open>runeLen\<close> is the number of bytes of the UTF-8 encoding of one code point, and \<open>len\<close>
  of a list of code points the number of bytes of its encoding, which is the length of
  the string the code points were read from when that string is well-formed.
\<close>

definition runeLen :: "rune \<Rightarrow> nat" where
  "runeLen r = (if r < 128 then 1 else if r < 2048 then 2 else if r < 65536 then 3 else 4)"

definition len :: "str \<Rightarrow> nat" where
  "len s = sum_list (map runeLen s)"

definition isUpper :: "rune \<Rightarrow> bool" where
  "isUpper r = (65 \<le> r \<and> r \<le> 90)"

definition isLower :: "rune \<Rightarrow> bool" where
  "isLower r = (97 \<le> r \<and> r \<le> 122)"

definition isLetter :: "rune \<Rightarrow> bool" where
  "isLetter r = ((65 \<le> r \<and> r \<le> 90) \<or> (97 \<le> r \<and> r \<le> 122))"

section \<open>The shift transform: applyCipher and decipherWithShift\<close>

text \<open>
  Both functions start with \<^verbatim>\<open>shift = shift % 26; if shift < 0 { shift += 26 }\<close>.
\<close>

definition normShift :: "int \<Rightarrow> int" where
  "normShift shift = (let s = trunc_mod shift 26 in if s < 0 then s + 26 else s)"

text \<open>
  The body of the loop over the characters, which is the same in both functions, and
  the two loops on the code points of their argument.
\<close>

definition shiftRune :: "int \<Rightarrow> rune \<Rightarrow> rune" where
  "shiftRune shift char =
     (if 65 \<le> char \<and> char \<le> 90 then 65 + trunc_mod (char - 65 + shift) 26
      else if 97 \<le> char \<and> char \<le> 122 then 97 + trunc_mod (char - 97 + shift) 26
      else char)"

definition applyCipher :: "str \<Rightarrow> int \<Rightarrow> str" where
  "applyCipher plaintext shift = map (shiftRune (normShift shift)) plaintext"

text \<open>\<^verbatim>\<open>decipherWithShift\<close> reverses the normalised shift: \<^verbatim>\<open>shift = 26 - shift\<close>.\<close>

definition decipherWithShift :: "str \<Rightarrow> int \<Rightarrow> str" where
  "decipherWithShift ciphertext shift = map (shiftRune (26 - normShift shift)) ciphertext"

section \<open>Go strings: what range reads and WriteRune writes\<close>

text \<open>
  One step of \<^verbatim>\<open>range\<close> over a string decodes the code point at the front of the string
  and gives its width in bytes. A leading byte below 128 is the code point itself; a
  leading byte from 194 to 223 starts a sequence of two bytes, from 224 to 239 of
  three, from 240 to 244 of four. The second byte of a sequence has a range that
  depends on the leading byte (which excludes the overlong forms, the surrogates and
  the code points above U+10FFFF), the later bytes lie from 128 to 191. Where the
  bytes at the front are no such sequence, the step yields U+FFFD (65533) and a width
  of one byte.
\<close>

definition continuation :: "byte \<Rightarrow> bool" where
  "continuation b = (128 \<le> b \<and> b \<le> 191)"

definition secondByteOk :: "byte \<Rightarrow> byte \<Rightarrow> bool" where
  "secondByteOk b0 b1 =
     ((if b0 = 224 then 160 else if b0 = 240 then 144 else 128) \<le> b1
      \<and> b1 \<le> (if b0 = 237 then 159 else if b0 = 244 then 143 else 191))"

fun decodeRune :: "gostring \<Rightarrow> rune \<times> nat" where
  "decodeRune [] = (65533, 0)"
| "decodeRune (b0 # bs) =
     (if b0 < 128 then (int b0, 1)
      else if 194 \<le> b0 \<and> b0 \<le> 223 then
        (case bs of
           b1 # _ \<Rightarrow>
             if continuation b1 then (int ((b0 - 192) * 64 + (b1 - 128)), 2) else (65533, 1)
         | _ \<Rightarrow> (65533, 1))
      else if 224 \<le> b0 \<and> b0 \<le> 239 then
        (case bs of
           b1 # b2 # _ \<Rightarrow>
             if secondByteOk b0 b1 \<and> continuation b2
             then (int ((b0 - 224) * 4096 + (b1 - 128) * 64 + (b2 - 128)), 3)
             else (65533, 1)
         | _ \<Rightarrow> (65533, 1))
      else if 240 \<le> b0 \<and> b0 \<le> 244 then
        (case bs of
           b1 # b2 # b3 # _ \<Rightarrow>
             if secondByteOk b0 b1 \<and> continuation b2 \<and> continuation b3
             then (int ((b0 - 240) * 262144 + (b1 - 128) * 4096 + (b2 - 128) * 64 + (b3 - 128)), 4)
             else (65533, 1)
         | _ \<Rightarrow> (65533, 1))
      else (65533, 1))"

text \<open>The code points \<^verbatim>\<open>range\<close> yields for a string, in order.\<close>

fun decodeRunes :: "gostring \<Rightarrow> str" where
  "decodeRunes [] = []"
| "decodeRunes (b0 # bs) =
     (case decodeRune (b0 # bs) of (r, width) \<Rightarrow> r # decodeRunes (drop (width - 1) bs))"

text \<open>
  \<^verbatim>\<open>WriteRune\<close> appends the UTF-8 encoding of a code point, and the encoding of U+FFFD
  (the bytes 239, 191, 189) for a value that is no code point.
\<close>

definition encodeRune :: "rune \<Rightarrow> gostring" where
  "encodeRune r =
     (if 0 \<le> r \<and> r \<le> 127 then [nat r]
      else if 128 \<le> r \<and> r \<le> 2047 then [192 + nat r div 64, 128 + nat r mod 64]
      else if r < 0 \<or> 1114111 < r \<or> (55296 \<le> r \<and> r \<le> 57343) then [239, 191, 189]
      else if r \<le> 65535 then
        [224 + nat r div 4096, 128 + nat r div 64 mod 64, 128 + nat r mod 64]
      else [240 + nat r div 262144, 128 + nat r div 4096 mod 64,
            128 + nat r div 64 mod 64, 128 + nat r mod 64])"

definition encodeRunes :: "str \<Rightarrow> gostring" where
  "encodeRunes rs = concat (map encodeRune rs)"

text \<open>
  The two functions of the source on Go strings: the loop runs over the code points
  that \<^verbatim>\<open>range\<close> reads and every code point it produces is written with \<^verbatim>\<open>WriteRune\<close>.
\<close>

definition applyCipherString :: "gostring \<Rightarrow> int \<Rightarrow> gostring" where
  "applyCipherString plaintext shift = encodeRunes (applyCipher (decodeRunes plaintext) shift)"

definition decipherWithShiftString :: "gostring \<Rightarrow> int \<Rightarrow> gostring" where
  "decipherWithShiftString ciphertext shift =
     encodeRunes (decipherWithShift (decodeRunes ciphertext) shift)"

section \<open>The scorer: scoreDecipheredText\<close>

text \<open>
  \<^verbatim>\<open>strings.ToUpper\<close> sends every code point through \<^verbatim>\<open>unicode.ToUpper\<close>, which maps the
  ASCII letters itself and looks every other code point up in the case table of the
  Unicode data. The table is not part of the repository: it is the parameter \<open>U\<close> of
  the scorer and of the searches, a map from code points to code points, and every
  theorem holds for every table. \<open>caseless\<close> is the table of a text whose code points
  above ASCII have no upper case.
\<close>

definition toUpperRune :: "(rune \<Rightarrow> rune) \<Rightarrow> rune \<Rightarrow> rune" where
  "toUpperRune U r =
     (if r \<le> 127 then (if 97 \<le> r \<and> r \<le> 122 then r - 32 else r) else U r)"

definition ToUpper :: "(rune \<Rightarrow> rune) \<Rightarrow> str \<Rightarrow> str" where
  "ToUpper U s = map (toUpperRune U) s"

definition caseless :: "rune \<Rightarrow> rune" where
  "caseless r = r"

text \<open>
  \<^verbatim>\<open>strings.Fields\<close> splits around runs of white space, as \<^verbatim>\<open>unicode.IsSpace\<close> defines it
  (tab to carriage return, space, U+0085, U+00A0, U+1680, U+2000 to U+200A, U+2028,
  U+2029, U+202F, U+205F, U+3000), and returns no empty word. \<open>fieldsFrom\<close> carries the
  word being read.
\<close>

definition isSpace :: "rune \<Rightarrow> bool" where
  "isSpace r =
     (r = 9 \<or> r = 10 \<or> r = 11 \<or> r = 12 \<or> r = 13 \<or> r = 32 \<or> r = 133 \<or> r = 160
      \<or> r = 5760 \<or> (8192 \<le> r \<and> r \<le> 8202) \<or> r = 8232 \<or> r = 8233 \<or> r = 8239
      \<or> r = 8287 \<or> r = 12288)"

fun fieldsFrom :: "str \<Rightarrow> str \<Rightarrow> str list" where
  "fieldsFrom word [] = (if word = [] then [] else [word])"
| "fieldsFrom word (r # rs) =
     (if isSpace r then (if word = [] then fieldsFrom [] rs else word # fieldsFrom [] rs)
      else fieldsFrom (word @ [r]) rs)"

definition Fields :: "str \<Rightarrow> str list" where
  "Fields s = fieldsFrom [] s"

text \<open>
  \<^verbatim>\<open>commonWords\<close> is a \<^verbatim>\<open>map[string]bool\<close> holding \<^verbatim>\<open>true\<close> for twenty words; reading it
  at any other word gives \<^verbatim>\<open>false\<close>.
\<close>

definition commonWordList :: "str list" where
  "commonWordList = map runes
     [''THE'', ''BE'', ''TO'', ''OF'', ''AND'',
      ''A'', ''IN'', ''THAT'', ''HAVE'', ''I'',
      ''IT'', ''FOR'', ''NOT'', ''ON'', ''WITH'',
      ''HE'', ''AS'', ''YOU'', ''DO'', ''AT'']"

definition commonWords :: "str \<Rightarrow> bool" where
  "commonWords word = (word \<in> set commonWordList)"

text \<open>The \<^verbatim>\<open>strings.Map\<close> call of the loop keeps the code points from A to Z only.\<close>

definition cleanWord :: "str \<Rightarrow> str" where
  "cleanWord word = filter isUpper word"

fun scoreWords :: "str list \<Rightarrow> real \<Rightarrow> real" where
  "scoreWords [] score = score"
| "scoreWords (word # words) score =
     scoreWords words (if commonWords (cleanWord word) then score + 1 else score)"

text \<open>\<^verbatim>\<open>strings.Count(text, " ")\<close>: the number of space characters.\<close>

definition countSpaces :: "str \<Rightarrow> nat" where
  "countSpaces s = length (filter (\<lambda>r. r = 32) s)"

text \<open>
  The score is a \<^verbatim>\<open>float64\<close>, modelled by a real number. The word score is a whole
  number, which \<^verbatim>\<open>float64\<close> holds exactly. The quotient of the two counts is rounded
  in the source; for a text of less than \<open>2^50\<close> bytes the rounded quotient lies on the
  same side of the constants 0.1 and 0.25 as the exact one, so the two tests are those
  of the exact quotient. For the empty text the source divides zero by zero, which
  gives a NaN and no failure, and both tests on a NaN are false: this is the first
  branch below.
\<close>

definition scoreDecipheredText :: "(rune \<Rightarrow> rune) \<Rightarrow> str \<Rightarrow> real" where
  "scoreDecipheredText U txt =
     (let score = scoreWords (Fields (ToUpper U txt)) 0;
          spaceCount = countSpaces txt
      in if len txt = 0 then score
         else (let spaceRatio = real spaceCount / real (len txt)
               in if spaceRatio > 0.1 \<and> spaceRatio < 0.25 then score + 2 else score))"

section \<open>The exhaustive search: breakCipherBruteForce\<close>

text \<open>
  The three variables \<^verbatim>\<open>bestScore\<close>, \<^verbatim>\<open>bestShift\<close> and \<^verbatim>\<open>bestPlaintext\<close> of the searches
  are the state of their loops; \<open>tryShift\<close> is the body of the loop, the same in both
  searches.
\<close>

record best =
  bestScore :: real
  bestShift :: int
  bestPlaintext :: str

definition initialBest :: best where
  "initialBest = \<lparr>bestScore = - 1, bestShift = 0, bestPlaintext = []\<rparr>"

definition tryShift :: "(rune \<Rightarrow> rune) \<Rightarrow> str \<Rightarrow> best \<Rightarrow> int \<Rightarrow> best" where
  "tryShift U ciphertext b shift =
     (let plaintext = decipherWithShift ciphertext shift;
          score = scoreDecipheredText U plaintext
      in if score > bestScore b
         then \<lparr>bestScore = score, bestShift = shift, bestPlaintext = plaintext\<rparr>
         else b)"

text \<open>\<^verbatim>\<open>for shift := 0; shift < 26; shift++\<close>, from the current value of \<^verbatim>\<open>shift\<close>.\<close>

function bruteLoop :: "(rune \<Rightarrow> rune) \<Rightarrow> str \<Rightarrow> int \<Rightarrow> best \<Rightarrow> best" where
  "bruteLoop U ciphertext shift b =
     (if shift < 26 then bruteLoop U ciphertext (shift + 1) (tryShift U ciphertext b shift)
      else b)"
  by pat_completeness auto
termination
  by (relation "measure (\<lambda>(U, ciphertext, shift, b). nat (26 - shift))") auto

declare bruteLoop.simps [simp del]

definition breakCipherBruteForce :: "(rune \<Rightarrow> rune) \<Rightarrow> str \<Rightarrow> str \<times> int" where
  "breakCipherBruteForce U ciphertext =
     (let b = bruteLoop U ciphertext 0 initialBest in (bestPlaintext b, bestShift b))"

section \<open>The frequency search: breakCipherFrequencyAnalysis\<close>

text \<open>
  \<^verbatim>\<open>calculateFrequencies\<close> fills a \<^verbatim>\<open>map[rune]int\<close>; a letter that was not counted yet
  reads as 0.
\<close>

fun countLetters :: "str \<Rightarrow> (rune \<rightharpoonup> nat) \<Rightarrow> (rune \<rightharpoonup> nat)" where
  "countLetters [] freq = freq"
| "countLetters (char # rest) freq =
     countLetters rest
       (if 65 \<le> char \<and> char \<le> 90
        then freq(char \<mapsto> (case freq char of None \<Rightarrow> 0 | Some n \<Rightarrow> n) + 1)
        else freq)"

definition calculateFrequencies :: "(rune \<Rightarrow> rune) \<Rightarrow> str \<Rightarrow> (rune \<rightharpoonup> nat)" where
  "calculateFrequencies U txt = countLetters (ToUpper U txt) Map.empty"

text \<open>
  \<^verbatim>\<open>getFrequencyOrder\<close> walks the map with \<^verbatim>\<open>range\<close>, in an order the language leaves
  open, and sorts the pairs by falling count with \<^verbatim>\<open>sort.Slice\<close>, which may reorder
  pairs of equal count. The order of the walk is the parameter \<open>visited\<close>; the sort is
  modelled by an insertion sort that keeps pairs of equal count in the order of the
  walk. Every outcome of the source is the outcome of the model for some order of the
  walk, and the theorems about the frequency search hold for every order.
  \<open>alphabetical\<close> is one such order.
\<close>

fun insertByCount :: "rune \<times> nat \<Rightarrow> (rune \<times> nat) list \<Rightarrow> (rune \<times> nat) list" where
  "insertByCount p [] = [p]"
| "insertByCount p (q # qs) = (if snd q > snd p then q # insertByCount p qs else p # q # qs)"

definition getFrequencyOrder :: "rune list \<Rightarrow> (rune \<rightharpoonup> nat) \<Rightarrow> str" where
  "getFrequencyOrder visited freq =
     (let pairs = map (\<lambda>letter. (letter, case freq letter of None \<Rightarrow> 0 | Some n \<Rightarrow> n)) visited
      in map fst (foldr insertByCount pairs []))"

definition alphabetical :: "(rune \<rightharpoonup> nat) \<Rightarrow> rune list" where
  "alphabetical freq = filter (\<lambda>letter. freq letter \<noteq> None) [65..90]"

text \<open>
  The shift that maps the most common letter to E:
  \<^verbatim>\<open>eShift := (mostCommon - 'E') % 26; if eShift < 0 { eShift += 26 }\<close>.
\<close>

definition eShiftOf :: "rune \<Rightarrow> int" where
  "eShiftOf mostCommon =
     (let eShift = trunc_mod (mostCommon - 69) 26 in if eShift < 0 then eShift + 26 else eShift)"

text \<open>
  The loop that appends the other shifts,
  \<^verbatim>\<open>if len(potentialShifts) == 0 || shift != potentialShifts[0]\<close>, from the current value
  of \<^verbatim>\<open>shift\<close>; \<open>candidateShifts\<close> is the list \<^verbatim>\<open>potentialShifts\<close> the search builds from
  \<^verbatim>\<open>freqOrder\<close>.
\<close>

function addShifts :: "int \<Rightarrow> int list \<Rightarrow> int list" where
  "addShifts shift potentialShifts =
     (if shift < 26
      then addShifts (shift + 1)
             (if (case potentialShifts of [] \<Rightarrow> True | first # _ \<Rightarrow> shift \<noteq> first)
              then potentialShifts @ [shift] else potentialShifts)
      else potentialShifts)"
  by pat_completeness auto
termination
  by (relation "measure (\<lambda>(shift, potentialShifts). nat (26 - shift))") auto

declare addShifts.simps [simp del]

definition candidateShifts :: "str \<Rightarrow> int list" where
  "candidateShifts freqOrder =
     addShifts 0 (case freqOrder of [] \<Rightarrow> [] | mostCommon # _ \<Rightarrow> [eShiftOf mostCommon])"

text \<open>
  \<open>mapRange\<close> gives the order in which \<^verbatim>\<open>range\<close> walks a frequency map. The letters of
  \<^verbatim>\<open>lettersOnly\<close> are ASCII, so its \<^verbatim>\<open>len\<close> is their number.
\<close>

definition breakCipherFrequencyAnalysis ::
  "(rune \<Rightarrow> rune) \<Rightarrow> ((rune \<rightharpoonup> nat) \<Rightarrow> rune list) \<Rightarrow> str \<Rightarrow> str \<times> int" where
  "breakCipherFrequencyAnalysis U mapRange ciphertext =
     (let lettersOnly = filter isLetter ciphertext
      in if len lettersOnly < 5 then breakCipherBruteForce U ciphertext
         else (let freq = calculateFrequencies U lettersOnly;
                   freqOrder = getFrequencyOrder (mapRange freq) freq;
                   potentialShifts = candidateShifts freqOrder;
                   b = foldl (tryShift U ciphertext) initialBest potentialShifts
               in (bestPlaintext b, bestShift b)))"

section \<open>Notions used to state the properties\<close>

text \<open>
  A code point proper (a Unicode scalar value) is a value from 0 to U+10FFFF that is no
  surrogate. A string is well-formed UTF-8 when writing back the code points that
  \<^verbatim>\<open>range\<close> reads gives the string itself: these are the encodings of the lists of code
  points (\<open>wellFormed_iff\<close> below), and a string with a stray byte is none, since the
  stray byte is read as U+FFFD and written as three bytes. \<open>shiftByte\<close> is the shift of
  the loop on one byte.

  The score a search gives to a shift, and the state a search holds after a shift has
  replaced the running best.
\<close>

definition scalar :: "rune \<Rightarrow> bool" where
  "scalar r = (0 \<le> r \<and> r \<le> 1114111 \<and> \<not> (55296 \<le> r \<and> r \<le> 57343))"

definition wellFormed :: "gostring \<Rightarrow> bool" where
  "wellFormed s = (encodeRunes (decodeRunes s) = s)"

definition shiftByte :: "int \<Rightarrow> byte \<Rightarrow> byte" where
  "shiftByte shift b = nat (shiftRune shift (int b))"

definition shiftScore :: "(rune \<Rightarrow> rune) \<Rightarrow> str \<Rightarrow> int \<Rightarrow> real" where
  "shiftScore U ciphertext shift = scoreDecipheredText U (decipherWithShift ciphertext shift)"

definition candidate :: "(rune \<Rightarrow> rune) \<Rightarrow> str \<Rightarrow> int \<Rightarrow> best" where
  "candidate U ciphertext shift =
     \<lparr>bestScore = shiftScore U ciphertext shift, bestShift = shift,
      bestPlaintext = decipherWithShift ciphertext shift\<rparr>"

text \<open>
  The score as claim C4 words it, with the total count of the space ratio left open:
  the number of words of the uppercased text that are common words once every
  character that is not a letter is stripped (the letters of an uppercased text are
  the capital letters), times 1.0, plus 2.0 when the number of spaces divided by
  \<open>totalCount\<close> lies strictly between 0.10 and 0.25. For a total of 0 the ratio is taken as 0.
\<close>

definition scoreAsClaimed :: "nat \<Rightarrow> (rune \<Rightarrow> rune) \<Rightarrow> str \<Rightarrow> real" where
  "scoreAsClaimed totalCount U txt =
     real (length (filter (\<lambda>token. filter isUpper token \<in> set commonWordList)
                     (Fields (ToUpper U txt)))) * 1.0
     + (if 0.10 < real (countSpaces txt) / real totalCount
           \<and> real (countSpaces txt) / real totalCount < 0.25
        then 2.0 else 0)"

section \<open>Properties of the shift transform\<close>

lemma trunc_mod_nonneg: "0 \<le> a \<Longrightarrow> trunc_mod a 26 = a mod 26"
  by (simp add: trunc_mod_def sgn_if)

lemma mod_26_of_negated: "(s::int) mod 26 = (if (- s) mod 26 = 0 then 0 else 26 - (- s) mod 26)"
  using zmod_zminus1_eq_if [of "- s" 26] by simp

lemma normShift_mod: "normShift s = s mod 26"
proof (cases "0 \<le> s")
  case True
  then show ?thesis
    by (simp add: normShift_def trunc_mod_nonneg Let_def)
next
  case False
  then have tm: "trunc_mod s 26 = - ((- s) mod 26)"
    by (simp add: trunc_mod_def sgn_if)
  have "0 \<le> (- s) mod 26" by simp
  then have "(- s) mod 26 = 0 \<or> 0 < (- s) mod 26" by linarith
  then show ?thesis
    using mod_26_of_negated [of s] by (auto simp: normShift_def Let_def tm)
qed

lemma normShift_range: "0 \<le> normShift s \<and> normShift s < 26"
  by (simp add: normShift_mod)

lemma shiftRune_upper:
  "0 \<le> k \<Longrightarrow> 65 \<le> c \<Longrightarrow> c \<le> 90 \<Longrightarrow> shiftRune k c = 65 + (c - 65 + k) mod 26"
  by (simp add: shiftRune_def trunc_mod_nonneg)

lemma shiftRune_lower:
  "0 \<le> k \<Longrightarrow> 97 \<le> c \<Longrightarrow> c \<le> 122 \<Longrightarrow> shiftRune k c = 97 + (c - 97 + k) mod 26"
  by (simp add: shiftRune_def trunc_mod_nonneg)

lemma shiftRune_other: "\<not> isLetter c \<Longrightarrow> shiftRune k c = c"
  by (auto simp: shiftRune_def isLetter_def)

lemma shiftRune_isUpper: "0 \<le> k \<Longrightarrow> isUpper c \<Longrightarrow> isUpper (shiftRune k c)"
  unfolding isUpper_def
proof -
  assume k: "0 \<le> k" and c: "65 \<le> c \<and> c \<le> 90"
  have "0 \<le> (c - 65 + k) mod 26" "(c - 65 + k) mod 26 < 26" by simp_all
  with k c show "65 \<le> shiftRune k c \<and> shiftRune k c \<le> 90"
    by (simp add: shiftRune_upper)
qed

lemma shiftRune_isLower: "0 \<le> k \<Longrightarrow> isLower c \<Longrightarrow> isLower (shiftRune k c)"
  unfolding isLower_def
proof -
  assume k: "0 \<le> k" and c: "97 \<le> c \<and> c \<le> 122"
  have "0 \<le> (c - 97 + k) mod 26" "(c - 97 + k) mod 26 < 26" by simp_all
  with k c show "97 \<le> shiftRune k c \<and> shiftRune k c \<le> 122"
    by (simp add: shiftRune_lower)
qed

lemma shiftRune_congruent:
  assumes "0 \<le> j" "0 \<le> k" "j mod 26 = k mod 26"
  shows "shiftRune j c = shiftRune k c"
proof -
  have "(x + j) mod 26 = (x + k) mod 26" for x
    using assms(3) by (metis mod_add_right_eq)
  with assms(1,2) show ?thesis
    by (simp add: shiftRune_def trunc_mod_nonneg)
qed

lemma shift_back:
  fixes x n :: int
  assumes "0 \<le> x" "x < 26"
  shows "((x + n) mod 26 + (26 - n)) mod 26 = x"
proof -
  have "((x + n) mod 26 + (26 - n)) mod 26 = ((x + n) + (26 - n)) mod 26"
    by (simp only: mod_add_left_eq)
  also have "\<dots> = (x + 26) mod 26" by (simp add: algebra_simps)
  also have "\<dots> = x mod 26" by (simp only: mod_add_self2)
  also have "\<dots> = x" using assms by simp
  finally show ?thesis .
qed

lemma shiftRune_inverse:
  assumes "0 \<le> n" "n < 26"
  shows "shiftRune (26 - n) (shiftRune n c) = c"
proof -
  consider (up) "65 \<le> c \<and> c \<le> 90" | (lo) "97 \<le> c \<and> c \<le> 122" | (other) "\<not> isLetter c"
    by (auto simp: isLetter_def)
  then show ?thesis
  proof cases
    case up
    define d where "d = (c - 65 + n) mod 26"
    have d: "0 \<le> d" "d < 26" by (simp_all add: d_def)
    have 1: "shiftRune n c = 65 + d"
      using up assms by (simp add: shiftRune_upper d_def)
    have "(d + (26 - n)) mod 26 = c - 65"
      unfolding d_def using up by (intro shift_back) simp_all
    with d assms show ?thesis
      by (simp add: 1 shiftRune_upper)
  next
    case lo
    define d where "d = (c - 97 + n) mod 26"
    have d: "0 \<le> d" "d < 26" by (simp_all add: d_def)
    have 1: "shiftRune n c = 97 + d"
      using lo assms by (simp add: shiftRune_lower d_def)
    have "(d + (26 - n)) mod 26 = c - 97"
      unfolding d_def using lo by (intro shift_back) simp_all
    with d assms show ?thesis
      by (simp add: 1 shiftRune_lower)
  next
    case other
    then show ?thesis by (simp add: shiftRune_other)
  qed
qed

lemma trunc_mod_cong26: "trunc_mod s 26 mod 26 = s mod 26"
proof (cases "0 \<le> s")
  case True
  then show ?thesis by (simp add: trunc_mod_nonneg)
next
  case False
  then have "trunc_mod s 26 = - ((- s) mod 26)"
    by (simp add: trunc_mod_def sgn_if)
  then show ?thesis by (metis mod_minus_eq minus_minus)
qed

lemma trunc_mod_below: "trunc_mod s 26 < 26"
proof -
  have m: "\<bar>s\<bar> mod 26 < 26" "0 \<le> \<bar>s\<bar> mod 26" by simp_all
  consider "s < 0" | "s = 0" | "0 < s" by linarith
  then show ?thesis
  proof cases
    case 1
    then have "trunc_mod s 26 = - (\<bar>s\<bar> mod 26)" by (simp add: trunc_mod_def)
    with m show ?thesis by linarith
  next
    case 2
    then show ?thesis by (simp add: trunc_mod_def)
  next
    case 3
    then have "trunc_mod s 26 = \<bar>s\<bar> mod 26" by (simp add: trunc_mod_def)
    with m show ?thesis by linarith
  qed
qed

lemma shiftRune_complement:
  assumes "0 \<le> k" "k mod 26 = (26 - normShift s) mod 26"
  shows "shiftRune (26 - normShift s) c = shiftRune k c"
proof -
  have "0 \<le> 26 - normShift s" using normShift_range [of s] by linarith
  then show ?thesis using assms by (intro shiftRune_congruent) simp_all
qed

lemma round_trip_runes: "decipherWithShift (applyCipher T s) s = T"
proof -
  have "shiftRune (26 - normShift s) (shiftRune (normShift s) c) = c" for c
    using normShift_range [of s] by (simp add: shiftRune_inverse)
  then show ?thesis
    by (simp add: decipherWithShift_def applyCipher_def comp_def)
qed

text \<open>
  Claim C3 (decoding is encoding with the complementary shift). For every text and
  every integer \<open>s\<close>, \<open>decipherWithShift txt s\<close> is \<open>applyCipher txt ((26 - s mod 26) mod 26)\<close>.
  The equation holds with the mathematical remainder (first line) and with the
  truncating remainder of the source (second line).
\<close>

theorem C3_decipher_is_complementary_cipher:
  "decipherWithShift txt s = applyCipher txt ((26 - s mod 26) mod 26)
   \<and> decipherWithShift txt s = applyCipher txt (trunc_mod (26 - trunc_mod s 26) 26)"
proof -
  let ?k1 = "normShift ((26 - s mod 26) mod 26)"
  let ?k2 = "normShift (trunc_mod (26 - trunc_mod s 26) 26)"
  have k1: "?k1 mod 26 = (26 - normShift s) mod 26"
    by (simp only: normShift_mod mod_mod_trivial)
  have "0 \<le> 26 - trunc_mod s 26" using trunc_mod_below [of s] by linarith
  then have "trunc_mod (26 - trunc_mod s 26) 26 = (26 - trunc_mod s 26) mod 26"
    by (rule trunc_mod_nonneg)
  also have "\<dots> = (26 - trunc_mod s 26 mod 26) mod 26"
    by (simp only: mod_diff_right_eq)
  also have "\<dots> = (26 - s mod 26) mod 26"
    by (simp only: trunc_mod_cong26)
  finally have k2: "?k2 mod 26 = (26 - normShift s) mod 26"
    by (simp only: normShift_mod mod_mod_trivial)
  have "shiftRune (26 - normShift s) c = shiftRune ?k1 c" for c
    using k1 normShift_range [of "(26 - s mod 26) mod 26"] by (intro shiftRune_complement) simp_all
  moreover have "shiftRune (26 - normShift s) c = shiftRune ?k2 c" for c
    using k2 normShift_range [of "trunc_mod (26 - trunc_mod s 26) 26"]
    by (intro shiftRune_complement) simp_all
  ultimately show ?thesis
    by (simp only: decipherWithShift_def applyCipher_def) simp
qed

section \<open>Properties of the decoding and the encoding\<close>

lemma decodeRune_width: "decodeRune (b # bs) = (r, w) \<Longrightarrow> 1 \<le> w \<and> w \<le> length (b # bs)"
  by (auto split: if_splits list.splits)

lemma decodeRune_scalar: "decodeRune (b # bs) = (r, w) \<Longrightarrow> scalar r"
  apply (simp split: if_splits list.splits)
  apply (auto simp: scalar_def continuation_def secondByteOk_def split: if_splits)
  done

lemma decodeRunes_all_scalar: "\<forall>r\<in>set (decodeRunes s). scalar r"
proof (induction s rule: decodeRunes.induct)
  case 1
  show ?case by simp
next
  case (2 b0 bs)
  obtain r w where d: "decodeRune (b0 # bs) = (r, w)" by (cases "decodeRune (b0 # bs)")
  then have "scalar r" by (rule decodeRune_scalar)
  moreover have "\<forall>x\<in>set (decodeRunes (drop (w - 1) bs)). scalar x"
    using 2 d by simp
  ultimately show ?case using d by simp
qed

lemma decode_encode_1:
  assumes "0 \<le> r" "r \<le> 127"
  shows "decodeRune (encodeRune r @ bs) = (r, 1)"
  using assms by (simp add: encodeRune_def)

lemma decode_encode_2:
  assumes "128 \<le> r" "r \<le> 2047"
  shows "decodeRune (encodeRune r @ bs) = (r, 2)"
proof -
  define n where "n = nat r"
  have n: "128 \<le> n" "n \<le> 2047" and rn: "r = int n" using assms by (simp_all add: n_def)
  have q: "2 \<le> n div 64" "n div 64 \<le> 31" using n by simp_all
  have m: "n mod 64 < 64" by simp
  have e: "encodeRune r = [192 + n div 64, 128 + n mod 64]"
    using assms by (simp add: encodeRune_def n_def)
  have "(n div 64) * 64 + n mod 64 = n" by simp
  then have "decodeRune ([192 + n div 64, 128 + n mod 64] @ bs) = (int n, 2)"
    using q m by (simp add: continuation_def)
  then show ?thesis using e by (simp only: rn)
qed

lemma decode_encode_3:
  assumes "2048 \<le> r" "r \<le> 65535" "\<not> (55296 \<le> r \<and> r \<le> 57343)"
  shows "decodeRune (encodeRune r @ bs) = (r, 3)"
proof -
  define n where "n = nat r"
  have n: "2048 \<le> n" "n \<le> 65535" "\<not> (55296 \<le> n \<and> n \<le> 57343)" and rn: "r = int n"
    using assms by (auto simp: n_def)
  define a where "a = n div 4096"
  define b where "b = n div 64 mod 64"
  define c where "c = n mod 64"
  have bc: "b < 64" "c < 64" by (simp_all add: b_def c_def)
  have "n div 64 = (n div 64 div 64) * 64 + n div 64 mod 64" by simp
  moreover have "n div 64 div 64 = n div 4096" by (simp add: div_mult2_eq [symmetric])
  ultimately have "n div 64 = a * 64 + b" by (simp add: a_def b_def)
  moreover have "n = n div 64 * 64 + n mod 64" by simp
  ultimately have sum: "n = a * 4096 + b * 64 + c" by (simp add: c_def)
  have a: "a \<le> 15" using n(2) by (simp add: a_def)
  have lo: "a = 0 \<Longrightarrow> 32 \<le> b" using sum n(1) bc by simp
  have hi: "a = 13 \<Longrightarrow> b \<le> 31" using sum n bc by auto
  have e: "encodeRune r = [224 + a, 128 + b, 128 + c]"
    using assms by (auto simp: encodeRune_def n_def a_def b_def c_def)
  have "decodeRune ([224 + a, 128 + b, 128 + c] @ bs) = (int (a * 4096 + b * 64 + c), 3)"
    using a bc lo hi by (auto simp: continuation_def secondByteOk_def)
  then have "decodeRune ([224 + a, 128 + b, 128 + c] @ bs) = (int n, 3)"
    by (simp only: sum [symmetric])
  then show ?thesis using e by (simp only: rn)
qed

lemma decode_encode_4:
  assumes "65536 \<le> r" "r \<le> 1114111"
  shows "decodeRune (encodeRune r @ bs) = (r, 4)"
proof -
  define n where "n = nat r"
  have n: "65536 \<le> n" "n \<le> 1114111" and rn: "r = int n"
    using assms by (auto simp: n_def)
  define a where "a = n div 262144"
  define b where "b = n div 4096 mod 64"
  define c where "c = n div 64 mod 64"
  define d where "d = n mod 64"
  have bcd: "b < 64" "c < 64" "d < 64" by (simp_all add: b_def c_def d_def)
  have "n div 4096 = (n div 4096 div 64) * 64 + n div 4096 mod 64" by simp
  moreover have "n div 4096 div 64 = n div 262144" by (simp add: div_mult2_eq [symmetric])
  ultimately have 1: "n div 4096 = a * 64 + b" by (simp add: a_def b_def)
  have "n div 64 = (n div 64 div 64) * 64 + n div 64 mod 64" by simp
  moreover have "n div 64 div 64 = n div 4096" by (simp add: div_mult2_eq [symmetric])
  ultimately have 2: "n div 64 = (a * 64 + b) * 64 + c" using 1 by (simp add: c_def)
  have "n = n div 64 * 64 + n mod 64" by simp
  with 2 have sum: "n = a * 262144 + b * 4096 + c * 64 + d" by (simp add: d_def)
  have a: "a \<le> 4" using n(2) by (simp add: a_def)
  have lo: "a = 0 \<Longrightarrow> 16 \<le> b" using sum n(1) bcd by simp
  have hi: "a = 4 \<Longrightarrow> b \<le> 15" using sum n(2) bcd by simp
  have e: "encodeRune r = [240 + a, 128 + b, 128 + c, 128 + d]"
    using assms by (auto simp: encodeRune_def n_def a_def b_def c_def d_def)
  have "decodeRune ([240 + a, 128 + b, 128 + c, 128 + d] @ bs)
      = (int (a * 262144 + b * 4096 + c * 64 + d), 4)"
    using a bcd lo hi by (auto simp: continuation_def secondByteOk_def)
  then have "decodeRune ([240 + a, 128 + b, 128 + c, 128 + d] @ bs) = (int n, 4)"
    by (simp only: sum [symmetric])
  then show ?thesis using e by (simp only: rn)
qed

lemma decode_encode_rune:
  assumes "scalar r"
  shows "decodeRune (encodeRune r @ bs) = (r, length (encodeRune r))"
proof -
  consider "0 \<le> r \<and> r \<le> 127" | "128 \<le> r \<and> r \<le> 2047"
    | "2048 \<le> r \<and> r \<le> 65535 \<and> \<not> (55296 \<le> r \<and> r \<le> 57343)"
    | "65536 \<le> r \<and> r \<le> 1114111"
    using assms unfolding scalar_def by atomize_elim linarith
  then show ?thesis
  proof cases
    case 1
    then show ?thesis using decode_encode_1 [of r bs] by (simp add: encodeRune_def)
  next
    case 2
    then show ?thesis using decode_encode_2 [of r bs] by (simp add: encodeRune_def)
  next
    case 3
    then show ?thesis using decode_encode_3 [of r bs] by (simp add: encodeRune_def)
  next
    case 4
    then show ?thesis using decode_encode_4 [of r bs] by (simp add: encodeRune_def)
  qed
qed

lemma encodeRune_nonempty: "encodeRune r \<noteq> []"
  by (simp add: encodeRune_def)

lemma decodeRunes_encodeRune:
  assumes "scalar r"
  shows "decodeRunes (encodeRune r @ bs) = r # decodeRunes bs"
proof -
  obtain b0 tl where e: "encodeRune r = b0 # tl"
    using encodeRune_nonempty [of r] by (cases "encodeRune r") auto
  have "decodeRune (b0 # tl @ bs) = (r, Suc (length tl))"
    using decode_encode_rune [OF assms, of bs] by (simp add: e)
  then show ?thesis by (simp add: e)
qed

lemma decodeRunes_encodeRunes:
  "\<forall>r\<in>set rs. scalar r \<Longrightarrow> decodeRunes (encodeRunes rs) = rs"
proof (induction rs)
  case Nil
  show ?case by (simp add: encodeRunes_def)
next
  case (Cons r rs)
  then have "decodeRunes (encodeRune r @ encodeRunes rs) = r # decodeRunes (encodeRunes rs)"
    by (simp add: decodeRunes_encodeRune)
  with Cons show ?case by (simp add: encodeRunes_def)
qed

lemma shiftRune_letter:
  "0 \<le> k \<Longrightarrow> isLetter c \<Longrightarrow> isLetter (shiftRune k c)"
  using shiftRune_isUpper [of k c] shiftRune_isLower [of k c]
  by (auto simp: isLetter_def isUpper_def isLower_def)

lemma shiftRune_scalar: "0 \<le> k \<Longrightarrow> scalar r \<Longrightarrow> scalar (shiftRune k r)"
proof (cases "isLetter r")
  case True
  assume "0 \<le> k"
  with True have "isLetter (shiftRune k r)" by (rule shiftRune_letter [rotated])
  then show ?thesis by (auto simp: isLetter_def scalar_def)
next
  case False
  assume "scalar r"
  with False show ?thesis by (simp add: shiftRune_other)
qed

lemma encodeRune_shiftRune:
  assumes "0 \<le> k"
  shows "encodeRune (shiftRune k r) = map (shiftByte k) (encodeRune r)"
proof (cases "isLetter r")
  case True
  with assms have l: "isLetter (shiftRune k r)" by (rule shiftRune_letter)
  from True have "encodeRune r = [nat r]" "0 \<le> r" by (auto simp: isLetter_def encodeRune_def)
  moreover from l have "encodeRune (shiftRune k r) = [nat (shiftRune k r)]"
    by (auto simp: isLetter_def encodeRune_def)
  ultimately show ?thesis by (simp add: shiftByte_def)
next
  case False
  have keep: "shiftByte k b = b" if "\<not> isLetter (int b)" for b
    using that by (simp add: shiftByte_def shiftRune_other)
  have "\<forall>b\<in>set (encodeRune r). \<not> isLetter (int b)"
    using False by (auto simp: encodeRune_def isLetter_def)
  then have "map (shiftByte k) (encodeRune r) = encodeRune r"
    by (intro map_idI) (simp add: keep)
  with False show ?thesis by (simp add: shiftRune_other)
qed

lemma encodeRunes_shift:
  "0 \<le> k \<Longrightarrow> encodeRunes (map (shiftRune k) rs) = map (shiftByte k) (encodeRunes rs)"
  by (induction rs) (simp_all add: encodeRunes_def encodeRune_shiftRune)

lemma applyCipherString_well_formed:
  assumes "wellFormed T"
  shows "applyCipherString T s = map (shiftByte (normShift s)) T"
proof -
  have "0 \<le> normShift s" using normShift_range [of s] by simp
  then have "applyCipherString T s = map (shiftByte (normShift s)) (encodeRunes (decodeRunes T))"
    by (simp add: applyCipherString_def applyCipher_def encodeRunes_shift)
  with assms show ?thesis by (simp add: wellFormed_def)
qed

lemma round_trip_well_formed:
  assumes "wellFormed T"
  shows "decipherWithShiftString (applyCipherString T s) s = T"
proof -
  have n: "0 \<le> normShift s" using normShift_range [of s] by simp
  have "\<forall>r\<in>set (applyCipher (decodeRunes T) s). scalar r"
    using decodeRunes_all_scalar [of T] n by (auto simp: applyCipher_def shiftRune_scalar)
  then have "decodeRunes (applyCipherString T s) = applyCipher (decodeRunes T) s"
    by (simp add: applyCipherString_def decodeRunes_encodeRunes)
  then have "decipherWithShiftString (applyCipherString T s) s = encodeRunes (decodeRunes T)"
    by (simp add: decipherWithShiftString_def round_trip_runes)
  with assms show ?thesis by (simp add: wellFormed_def)
qed

lemma wellFormed_iff:
  "wellFormed s \<longleftrightarrow> (\<exists>rs. (\<forall>r\<in>set rs. scalar r) \<and> s = encodeRunes rs)"
proof
  assume "wellFormed s"
  then have "s = encodeRunes (decodeRunes s)" by (simp add: wellFormed_def)
  with decodeRunes_all_scalar [of s] show "\<exists>rs. (\<forall>r\<in>set rs. scalar r) \<and> s = encodeRunes rs"
    by blast
next
  assume "\<exists>rs. (\<forall>r\<in>set rs. scalar r) \<and> s = encodeRunes rs"
  then obtain rs where "\<forall>r\<in>set rs. scalar r" "s = encodeRunes rs" by blast
  then show "wellFormed s" by (simp add: wellFormed_def decodeRunes_encodeRunes)
qed

lemma shape_well_formed:
  assumes "wellFormed T"
  shows "length (applyCipherString T s) = length T
   \<and> (\<forall>i < length T.
        (\<not> isLetter (int (T ! i)) \<longrightarrow> applyCipherString T s ! i = T ! i)
        \<and> (isUpper (int (T ! i)) \<longrightarrow> isUpper (int (applyCipherString T s ! i)))
        \<and> (isLower (int (T ! i)) \<longrightarrow> isLower (int (applyCipherString T s ! i))))"
proof -
  have n: "0 \<le> normShift s" using normShift_range [of s] by simp
  have out: "applyCipherString T s = map (shiftByte (normShift s)) T"
    using assms by (rule applyCipherString_well_formed)
  have other: "shiftByte (normShift s) b = b" if "\<not> isLetter (int b)" for b
    using that by (simp add: shiftByte_def shiftRune_other)
  have upper: "isUpper (int (shiftByte (normShift s) b))" if "isUpper (int b)" for b
  proof -
    from n that have u: "isUpper (shiftRune (normShift s) (int b))" by (rule shiftRune_isUpper)
    then have "0 \<le> shiftRune (normShift s) (int b)" by (simp add: isUpper_def)
    with u show ?thesis by (simp add: shiftByte_def)
  qed
  have lower: "isLower (int (shiftByte (normShift s) b))" if "isLower (int b)" for b
  proof -
    from n that have l: "isLower (shiftRune (normShift s) (int b))" by (rule shiftRune_isLower)
    then have "0 \<le> shiftRune (normShift s) (int b)" by (simp add: isLower_def)
    with l show ?thesis by (simp add: shiftByte_def)
  qed
  show ?thesis by (simp add: out other upper lower)
qed

lemma round_trip_sample:
  "wellFormed [72, 195, 169, 32, 226, 130, 172, 33]"
  "applyCipherString [72, 195, 169, 32, 226, 130, 172, 33] 29
     = [75, 195, 169, 32, 226, 130, 172, 33]"
  "decipherWithShiftString [75, 195, 169, 32, 226, 130, 172, 33] 29
     = [72, 195, 169, 32, 226, 130, 172, 33]"
  by (simp_all add: wellFormed_def decipherWithShiftString_def applyCipherString_def
      applyCipher_def decipherWithShift_def normShift_def trunc_mod_def shiftRune_def
      encodeRunes_def encodeRune_def continuation_def secondByteOk_def)



section \<open>Properties of the scorer and of the loops\<close>

lemma scoreWords_ge: "score \<le> scoreWords ws score"
proof (induction ws arbitrary: score)
  case Nil
  show ?case by simp
next
  case (Cons w ws)
  have "score \<le> (if commonWords (cleanWord w) then score + 1 else score)" by simp
  also have "\<dots> \<le> scoreWords ws (if commonWords (cleanWord w) then score + 1 else score)"
    by (rule Cons.IH)
  finally show ?case by simp
qed

lemma score_nonneg: "0 \<le> scoreDecipheredText U txt"
proof -
  have "0 \<le> scoreWords (Fields (ToUpper U txt)) 0" by (rule scoreWords_ge)
  then show ?thesis by (simp add: scoreDecipheredText_def Let_def)
qed

lemma shiftScore_nonneg: "0 \<le> shiftScore U c s"
  by (simp add: shiftScore_def score_nonneg)

lemma tryShift_eq:
  "tryShift U c b s = (if shiftScore U c s > bestScore b then candidate U c s else b)"
  by (simp add: tryShift_def shiftScore_def candidate_def Let_def)

lemma bruteLoop_foldl: "bruteLoop U c shift b = foldl (tryShift U c) b [shift..25]"
proof (induction U c shift b rule: bruteLoop.induct)
  case (1 U c shift b)
  show ?case
  proof (cases "shift < 26")
    case True
    then have "[shift..25] = shift # [shift + 1..25]" by (simp add: upto_rec1)
    with True 1 show ?thesis by (simp add: bruteLoop.simps [of U c shift b])
  next
    case False
    then show ?thesis by (simp add: bruteLoop.simps [of U c shift b])
  qed
qed

lemma addShifts_step:
  "shift < 26 \<Longrightarrow> addShifts shift (f # ps) =
     addShifts (shift + 1) (if shift \<noteq> f then (f # ps) @ [shift] else f # ps)"
  by (subst addShifts.simps) simp

lemma addShifts_done: "\<not> shift < 26 \<Longrightarrow> addShifts shift ps = ps"
  by (subst addShifts.simps) simp

lemma addShifts_nonempty:
  "addShifts shift (f # ps) = (f # ps) @ filter (\<lambda>s. s \<noteq> f) [shift..25]"
proof (induction shift "f # ps" arbitrary: ps rule: addShifts.induct)
  case (1 shift)
  show ?case
  proof (cases "shift < 26")
    case True
    then have u: "[shift..25] = shift # [shift + 1..25]" by (simp add: upto_rec1)
    show ?thesis
    proof (cases "shift = f")
      case True
      have "addShifts shift (f # ps) = addShifts (shift + 1) (f # ps)"
        using \<open>shift < 26\<close> True by (simp add: addShifts_step)
      also have "\<dots> = (f # ps) @ filter (\<lambda>s. s \<noteq> f) [shift + 1..25]"
        using \<open>shift < 26\<close> True by (intro 1) simp_all
      finally show ?thesis using True u by simp
    next
      case False
      have "addShifts shift (f # ps) = addShifts (shift + 1) (f # (ps @ [shift]))"
        using \<open>shift < 26\<close> False by (simp add: addShifts_step)
      also have "\<dots> = (f # (ps @ [shift])) @ filter (\<lambda>s. s \<noteq> f) [shift + 1..25]"
        using \<open>shift < 26\<close> False by (intro 1) simp_all
      finally show ?thesis using False u by simp
    qed
  next
    case False
    then show ?thesis by (simp add: addShifts_done)
  qed
qed

lemma addShifts_empty: "addShifts 0 [] = [0..25]"
proof -
  have "addShifts 0 [] = addShifts 1 [0]"
    by (simp add: addShifts.simps [of 0 "[]"])
  also have "\<dots> = [0] @ filter (\<lambda>s. s \<noteq> 0) [1..25]"
    by (rule addShifts_nonempty)
  also have "filter (\<lambda>s. s \<noteq> 0) [1..25] = [1..25]"
    by (rule filter_True) simp
  finally show ?thesis by (simp add: upto_rec1 [of 0 25])
qed

lemma eShiftOf_range: "0 \<le> eShiftOf m \<and> eShiftOf m \<le> 25"
proof -
  have "eShiftOf m = normShift (m - 69)" by (simp add: eShiftOf_def normShift_def)
  then show ?thesis using normShift_range [of "m - 69"] by simp
qed

lemma candidateShifts_eq:
  "candidateShifts freqOrder =
     (case freqOrder of [] \<Rightarrow> [0..25]
      | m # _ \<Rightarrow> eShiftOf m # filter (\<lambda>s. s \<noteq> eShiftOf m) [0..25])"
  by (simp add: candidateShifts_def addShifts_empty addShifts_nonempty split: list.split)

lemma candidateShifts_set: "set (candidateShifts freqOrder) = {0..25}"
  using eShiftOf_range by (auto simp: candidateShifts_eq split: list.split)

lemma candidateShifts_distinct: "distinct (candidateShifts freqOrder)"
  by (simp add: candidateShifts_eq split: list.split)

lemma candidateShifts_length: "length (candidateShifts freqOrder) = 26"
proof -
  have "card (set (candidateShifts freqOrder)) = length (candidateShifts freqOrder)"
    by (rule distinct_card) (rule candidateShifts_distinct)
  then show ?thesis by (simp add: candidateShifts_set)
qed

section \<open>What a search returns\<close>

lemma search_cases:
  "(foldl (tryShift U c) b xs = b \<and> (\<forall>x\<in>set xs. shiftScore U c x \<le> bestScore b))
   \<or> (\<exists>ys x zs. xs = ys @ x # zs \<and> foldl (tryShift U c) b xs = candidate U c x
         \<and> bestScore b < shiftScore U c x
         \<and> (\<forall>y\<in>set ys. shiftScore U c y < shiftScore U c x)
         \<and> (\<forall>z\<in>set zs. shiftScore U c z \<le> shiftScore U c x))"
  (is "?keeps xs \<or> ?replaced xs")
proof (induction xs rule: rev_induct)
  case Nil
  show ?case by simp
next
  case (snoc a xs)
  let ?r = "foldl (tryShift U c) b xs"
  have step: "foldl (tryShift U c) b (xs @ [a]) =
      (if shiftScore U c a > bestScore ?r then candidate U c a else ?r)"
    by (simp add: tryShift_eq)
  from snoc.IH show ?case
  proof
    assume keep: "?keeps xs"
    then have rb: "?r = b" and le: "\<forall>x\<in>set xs. shiftScore U c x \<le> bestScore b"
      by simp_all
    show ?thesis
    proof (cases "shiftScore U c a > bestScore b")
      case True
      then have "foldl (tryShift U c) b (xs @ [a]) = candidate U c a"
        unfolding step rb by simp
      moreover have "\<forall>y\<in>set xs. shiftScore U c y < shiftScore U c a"
        using le True by fastforce
      ultimately have "?replaced (xs @ [a])"
        using True by (intro exI [of _ xs] exI [of _ a] exI [of _ "[]"]) simp
      then show ?thesis ..
    next
      case False
      then have "foldl (tryShift U c) b (xs @ [a]) = b"
        unfolding step rb by simp
      with le False have "?keeps (xs @ [a])" by auto
      then show ?thesis ..
    qed
  next
    assume "?replaced xs"
    then obtain ys x zs where xs: "xs = ys @ x # zs"
      and r: "?r = candidate U c x"
      and gt: "bestScore b < shiftScore U c x"
      and before: "\<forall>y\<in>set ys. shiftScore U c y < shiftScore U c x"
      and after: "\<forall>z\<in>set zs. shiftScore U c z \<le> shiftScore U c x"
      by blast
    have bs: "bestScore ?r = shiftScore U c x" by (simp add: r candidate_def)
    show ?thesis
    proof (cases "shiftScore U c a > shiftScore U c x")
      case True
      then have "foldl (tryShift U c) b (xs @ [a]) = candidate U c a"
        unfolding step bs by simp
      moreover have "\<forall>y\<in>set xs. shiftScore U c y < shiftScore U c a"
        using xs before after True by fastforce
      moreover have "bestScore b < shiftScore U c a" using gt True by simp
      ultimately have "?replaced (xs @ [a])"
        by (intro exI [of _ xs] exI [of _ a] exI [of _ "[]"]) simp
      then show ?thesis ..
    next
      case False
      then have "foldl (tryShift U c) b (xs @ [a]) = candidate U c x"
        unfolding step bs by (simp add: r)
      moreover have "\<forall>z\<in>set (zs @ [a]). shiftScore U c z \<le> shiftScore U c x"
        using after False by auto
      moreover have "xs @ [a] = ys @ x # (zs @ [a])" by (simp add: xs)
      ultimately have "?replaced (xs @ [a])"
        using gt before by blast
      then show ?thesis ..
    qed
  qed
qed

lemma search_initial:
  assumes "xs \<noteq> []"
  shows "\<exists>ys x zs. xs = ys @ x # zs
           \<and> foldl (tryShift U c) initialBest xs = candidate U c x
           \<and> (\<forall>y\<in>set ys. shiftScore U c y < shiftScore U c x)
           \<and> (\<forall>z\<in>set zs. shiftScore U c z \<le> shiftScore U c x)"
proof -
  from assms obtain a where a: "a \<in> set xs" by (cases xs) auto
  have "\<not> shiftScore U c a \<le> bestScore initialBest"
    using shiftScore_nonneg [of U c a] by (simp add: initialBest_def)
  with a have "\<not> (\<forall>x\<in>set xs. shiftScore U c x \<le> bestScore initialBest)" by blast
  with search_cases [of U c initialBest xs] show ?thesis by blast
qed

lemma search_best:
  assumes "xs \<noteq> []"
  shows "\<exists>x\<in>set xs. foldl (tryShift U c) initialBest xs = candidate U c x
           \<and> (\<forall>y\<in>set xs. shiftScore U c y \<le> shiftScore U c x)"
proof -
  from search_initial [OF assms, of U c] obtain ys x zs where
    xs: "xs = ys @ x # zs" and r: "foldl (tryShift U c) initialBest xs = candidate U c x"
    and before: "\<forall>y\<in>set ys. shiftScore U c y < shiftScore U c x"
    and after: "\<forall>z\<in>set zs. shiftScore U c z \<le> shiftScore U c x"
    by blast
  have "\<forall>y\<in>set xs. shiftScore U c y \<le> shiftScore U c x"
    using xs before after by fastforce
  with xs r show ?thesis by auto
qed

lemma brute_first_max:
  "\<exists>k. bruteLoop U c 0 initialBest = candidate U c k \<and> 0 \<le> k \<and> k \<le> 25
     \<and> (\<forall>j. 0 \<le> j \<and> j \<le> 25 \<longrightarrow> shiftScore U c j \<le> shiftScore U c k)
     \<and> (\<forall>j. 0 \<le> j \<and> j < k \<longrightarrow> shiftScore U c j < shiftScore U c k)"
proof -
  have ne: "[0..25] \<noteq> ([]::int list)" by (simp add: upto_rec1 [of 0 25])
  from search_initial [OF ne, of U c] obtain ys x zs where
    xs: "[0..25] = ys @ x # zs" and r: "foldl (tryShift U c) initialBest [0..25] = candidate U c x"
    and before: "\<forall>y\<in>set ys. shiftScore U c y < shiftScore U c x"
    and after: "\<forall>z\<in>set zs. shiftScore U c z \<le> shiftScore U c x"
    by blast
  have mem: "set ys \<union> {x} \<union> set zs = {0..25}"
    using arg_cong [OF xs, of set] by auto
  then have x: "0 \<le> x" "x \<le> 25" by auto
  have "sorted (ys @ x # zs)" using xs sorted_upto [of 0 25] by simp
  then have zs: "\<forall>z\<in>set zs. x \<le> z" by (simp add: sorted_append)
  have lower: "shiftScore U c j < shiftScore U c x" if "0 \<le> j" "j < x" for j
  proof -
    from that x have "j \<in> {0..25}" by simp
    with mem have "j \<in> set ys \<or> j = x \<or> j \<in> set zs" by blast
    with that zs have "j \<in> set ys" by fastforce
    with before show ?thesis by blast
  qed
  have all: "shiftScore U c j \<le> shiftScore U c x" if "0 \<le> j" "j \<le> 25" for j
  proof -
    from that have "j \<in> {0..25}" by simp
    with mem have "j \<in> set ys \<or> j = x \<or> j \<in> set zs" by blast
    with before after show ?thesis by fastforce
  qed
  show ?thesis
    using r x lower all by (intro exI [of _ x]) (simp add: bruteLoop_foldl)
qed

lemma len_ascii: "\<forall>r\<in>set s. r < 128 \<Longrightarrow> len s = length s"
  by (induction s) (simp_all add: len_def runeLen_def)

lemma len_letters: "len (filter isLetter c) = length (filter isLetter c)"
  by (rule len_ascii) (auto simp: isLetter_def)

lemma brute_result:
  "\<exists>k. breakCipherBruteForce U c = (decipherWithShift c k, k) \<and> 0 \<le> k \<and> k \<le> 25
     \<and> bruteLoop U c 0 initialBest = candidate U c k
     \<and> (\<forall>j. 0 \<le> j \<and> j \<le> 25 \<longrightarrow> shiftScore U c j \<le> shiftScore U c k)
     \<and> (\<forall>j. 0 \<le> j \<and> j < k \<longrightarrow> shiftScore U c j < shiftScore U c k)"
proof -
  from brute_first_max [of U c] obtain k where
    k: "bruteLoop U c 0 initialBest = candidate U c k" "0 \<le> k" "k \<le> 25"
    "\<forall>j. 0 \<le> j \<and> j \<le> 25 \<longrightarrow> shiftScore U c j \<le> shiftScore U c k"
    "\<forall>j. 0 \<le> j \<and> j < k \<longrightarrow> shiftScore U c j < shiftScore U c k"
    by blast
  have "breakCipherBruteForce U c = (decipherWithShift c k, k)"
    by (simp add: breakCipherBruteForce_def k(1) candidate_def)
  with k show ?thesis by blast
qed

lemma frequency_result:
  assumes "\<not> length (filter isLetter c) < 5"
  shows "\<exists>k. breakCipherFrequencyAnalysis U mapRange c = (decipherWithShift c k, k)
     \<and> 0 \<le> k \<and> k \<le> 25
     \<and> (\<forall>j. 0 \<le> j \<and> j \<le> 25 \<longrightarrow> shiftScore U c j \<le> shiftScore U c k)"
proof -
  define fo where
    "fo = getFrequencyOrder (mapRange (calculateFrequencies U (filter isLetter c)))
            (calculateFrequencies U (filter isLetter c))"
  have ne: "candidateShifts fo \<noteq> []"
    using candidateShifts_length [of fo] by auto
  from search_best [OF ne, of U c] obtain k where
    k: "k \<in> set (candidateShifts fo)"
    "foldl (tryShift U c) initialBest (candidateShifts fo) = candidate U c k"
    "\<forall>y\<in>set (candidateShifts fo). shiftScore U c y \<le> shiftScore U c k"
    by blast
  have "breakCipherFrequencyAnalysis U mapRange c = (decipherWithShift c k, k)"
    using assms
    by (simp add: breakCipherFrequencyAnalysis_def Let_def len_letters fo_def [symmetric] k(2)
        candidate_def)
  with k(1,3) show ?thesis
    by (auto simp: candidateShifts_set)
qed

lemma frequency_short:
  "length (filter isLetter c) < 5 \<Longrightarrow>
     breakCipherFrequencyAnalysis U mapRange c = breakCipherBruteForce U c"
  by (simp add: breakCipherFrequencyAnalysis_def Let_def len_letters)

lemma either_result:
  "\<exists>k. breakCipherFrequencyAnalysis U mapRange c = (decipherWithShift c k, k)
     \<and> 0 \<le> k \<and> k \<le> 25
     \<and> (\<forall>j. 0 \<le> j \<and> j \<le> 25 \<longrightarrow> shiftScore U c j \<le> shiftScore U c k)"
proof (cases "length (filter isLetter c) < 5")
  case True
  with brute_result [of U c] show ?thesis by (auto simp: frequency_short)
next
  case False
  then show ?thesis by (rule frequency_result)
qed

lemma max_score:
  assumes "0 \<le> k" "k \<le> 25"
    and "\<forall>j. 0 \<le> j \<and> j \<le> 25 \<longrightarrow> shiftScore U c j \<le> shiftScore U c k"
  shows "Max (shiftScore U c ` {0..25}) = shiftScore U c k"
proof (rule Max_eqI)
  show "finite (shiftScore U c ` {0..25})" by simp
  show "shiftScore U c k \<in> shiftScore U c ` {0..25}" using assms(1,2) by simp
  fix y assume "y \<in> shiftScore U c ` {0..25}"
  with assms(3) show "y \<le> shiftScore U c k" by auto
qed

section \<open>The claims about the scorer and the searches\<close>

lemma scoreWords_count:
  "scoreWords ws score =
     score + real (length (filter (\<lambda>token. filter isUpper token \<in> set commonWordList) ws))"
  by (induction ws arbitrary: score) (simp_all add: commonWords_def cleanWord_def)

text \<open>
  Claim C4 (what the scorer computes), as amended: the space ratio is the number of
  spaces divided by the number of bytes of the text, \<open>len txt\<close>, which is the number of
  its characters only when the text is ASCII. The rest is as claimed: one point for
  each word of the uppercased text that is a common word once its non-letters are
  stripped, and 2.0 more exactly when the ratio lies strictly between 0.10 and 0.25.
\<close>

theorem C4_score_counts_bytes:
  "scoreDecipheredText U txt = scoreAsClaimed (len txt) U txt"
  by (simp add: scoreDecipheredText_def scoreAsClaimed_def Let_def scoreWords_count)

text \<open>
  Claim C4 as stated divides by the number of characters. The text of four euro signs,
  a space and a fifth euro sign has 6 characters and 16 bytes: the source gives it no
  bonus (1/16), the claim gives it one (1/6).
\<close>

theorem C4_character_count_counterexample:
  "scoreDecipheredText caseless [8364, 8364, 8364, 8364, 32, 8364]
     \<noteq> scoreAsClaimed (length [8364, 8364, 8364, 8364, 32, 8364 :: int]) caseless
         [8364, 8364, 8364, 8364, 32, 8364]"
  by code_simp

lemma euro_text_values:
  "scoreDecipheredText caseless [8364, 8364, 8364, 8364, 32, 8364] = 0"
  "scoreAsClaimed (length [8364, 8364, 8364, 8364, 32, 8364 :: int]) caseless
         [8364, 8364, 8364, 8364, 32, 8364] = 2"
  "scoreAsClaimed (len [8364, 8364, 8364, 8364, 32, 8364 :: int]) caseless
         [8364, 8364, 8364, 8364, 32, 8364] = 0"
  "len [8364, 8364, 8364, 8364, 32, 8364 :: int] = 16"
  by code_simp+

text \<open>
  Claim C10 (scores are not negative). For every text the score is at least 0, so it
  is above the initial best score of -1; whatever shift a search tries first replaces
  the initial state.
\<close>

theorem C10_score_lower_bound:
  "0 \<le> scoreDecipheredText U txt
   \<and> bestScore initialBest = - 1
   \<and> bestScore initialBest < scoreDecipheredText U txt
   \<and> tryShift U c initialBest s = candidate U c s"
proof -
  have "0 \<le> scoreDecipheredText U txt" by (rule score_nonneg)
  moreover have "0 \<le> shiftScore U c s" by (rule shiftScore_nonneg)
  ultimately show ?thesis by (simp add: tryShift_eq initialBest_def)
qed

text \<open>
  Claim C7 (empty input). \<open>applyCipher\<close> of the empty text is the empty text for every
  shift; the score of the empty text is 0, with no bonus (the text has 0 bytes, the
  quotient is the NaN branch of the scorer); the exhaustive search of the empty text
  returns the empty text and the shift 0.
\<close>

theorem C7_empty_input:
  "applyCipher [] s = []
   \<and> len [] = 0
   \<and> scoreDecipheredText U [] = 0
   \<and> breakCipherBruteForce U [] = ([], 0)"
proof -
  have sc: "shiftScore U [] j = 0" for j
    by (simp add: shiftScore_def decipherWithShift_def scoreDecipheredText_def len_def
        ToUpper_def Fields_def countSpaces_def)
  from brute_result [of U "[]"] obtain k where
    k: "breakCipherBruteForce U [] = (decipherWithShift [] k, k)" "0 \<le> k"
    "\<forall>j. 0 \<le> j \<and> j < k \<longrightarrow> shiftScore U [] j < shiftScore U [] k"
    by blast
  have "k = 0"
  proof (rule ccontr)
    assume "k \<noteq> 0"
    with k(2) have "0 \<le> (0::int) \<and> 0 < k" by simp
    with k(3) have "shiftScore U [] 0 < shiftScore U [] k" by blast
    then show False by (simp add: sc)
  qed
  with k(1) have "breakCipherBruteForce U [] = ([], 0)"
    by (simp add: decipherWithShift_def)
  moreover have "scoreDecipheredText U [] = 0"
    using sc [of 0] by (simp add: shiftScore_def decipherWithShift_def)
  ultimately show ?thesis by (simp add: applyCipher_def len_def)
qed

text \<open>
  Claim C9 (the returned pair is consistent). For every ciphertext, both searches
  return a shift from 0 to 25 and the plaintext that \<open>decipherWithShift\<close> gives for
  that shift; the state the exhaustive search ends in is the state of that shift, and
  so is the state the frequency search ends in, whatever the frequency order: never
  the initial one.
\<close>

theorem C9_result_consistent:
  "0 \<le> snd (breakCipherBruteForce U c) \<and> snd (breakCipherBruteForce U c) \<le> 25
   \<and> fst (breakCipherBruteForce U c) = decipherWithShift c (snd (breakCipherBruteForce U c))
   \<and> bruteLoop U c 0 initialBest = candidate U c (snd (breakCipherBruteForce U c))
   \<and> 0 \<le> snd (breakCipherFrequencyAnalysis U mapRange c)
   \<and> snd (breakCipherFrequencyAnalysis U mapRange c) \<le> 25
   \<and> fst (breakCipherFrequencyAnalysis U mapRange c) =
       decipherWithShift c (snd (breakCipherFrequencyAnalysis U mapRange c))
   \<and> foldl (tryShift U c) initialBest (candidateShifts freqOrder)
       = candidate U c (bestShift (foldl (tryShift U c) initialBest (candidateShifts freqOrder)))
   \<and> bruteLoop U c 0 initialBest \<noteq> initialBest
   \<and> foldl (tryShift U c) initialBest (candidateShifts freqOrder) \<noteq> initialBest"
proof -
  from brute_result [of U c] obtain k where
    k: "breakCipherBruteForce U c = (decipherWithShift c k, k)" "0 \<le> k" "k \<le> 25"
    "bruteLoop U c 0 initialBest = candidate U c k"
    by blast
  from either_result [of U mapRange c] obtain m where
    m: "breakCipherFrequencyAnalysis U mapRange c = (decipherWithShift c m, m)" "0 \<le> m" "m \<le> 25"
    by blast
  have ne: "candidateShifts freqOrder \<noteq> []"
    using candidateShifts_length [of freqOrder] by auto
  from search_best [OF ne, of U c] obtain x where
    x: "foldl (tryShift U c) initialBest (candidateShifts freqOrder) = candidate U c x"
    by blast
  have cand: "candidate U c j \<noteq> initialBest" for j
  proof
    assume "candidate U c j = initialBest"
    then have "bestScore (candidate U c j) = bestScore initialBest" by simp
    then have "shiftScore U c j = - 1" by (simp add: candidate_def initialBest_def)
    with shiftScore_nonneg [of U c j] show False by simp
  qed
  have "foldl (tryShift U c) initialBest (candidateShifts freqOrder)
       = candidate U c (bestShift (foldl (tryShift U c) initialBest (candidateShifts freqOrder)))"
    by (simp add: x) (simp add: candidate_def)
  moreover have "foldl (tryShift U c) initialBest (candidateShifts freqOrder) \<noteq> initialBest"
    by (simp add: x cand)
  moreover have "bruteLoop U c 0 initialBest \<noteq> initialBest"
    by (simp add: k(4) cand)
  ultimately show ?thesis using k m by simp
qed

text \<open>
  Claim C6 (short input). For every ciphertext with fewer than 5 ASCII letters the
  frequency search returns the pair the exhaustive search returns, whatever the case
  table and the order of the map.
\<close>

theorem C6_short_input_fallback:
  "length (filter isLetter c) < 5 \<Longrightarrow>
     breakCipherFrequencyAnalysis U mapRange c = breakCipherBruteForce U c"
  by (rule frequency_short)

theorem C6_short_input_fallback_witness:
  "length (filter isLetter (runes ''AB!'')) < 5
   \<and> breakCipherFrequencyAnalysis caseless alphabetical (runes ''AB!'')
       = breakCipherBruteForce caseless (runes ''AB!'')
   \<and> breakCipherBruteForce caseless (runes ''AB!'') = (runes ''AB!'', 0)"
proof -
  have short: "length (filter isLetter (runes ''AB!'')) < 5" by code_simp
  have "breakCipherBruteForce caseless (runes ''AB!'') = (runes ''AB!'', 0)" by code_simp
  with short C6_short_input_fallback [OF short, of caseless alphabetical] show ?thesis
    by simp
qed

text \<open>
  Claim C5 (the first maximum wins). The exhaustive search tries the shifts 0 to 25
  in rising order, starting from a best score of -1, and returns the smallest shift
  whose score is the greatest score of the 26 shifts, with its plaintext. A shift
  whose score is not above the running best leaves the state as it is; a shift whose
  score is above it replaces the state; shift 0 replaces the initial state.
\<close>

theorem C5_first_maximum_wins:
  "snd (breakCipherBruteForce U c)
     = Min {k \<in> {0..25}. shiftScore U c k = Max (shiftScore U c ` {0..25})}
   \<and> fst (breakCipherBruteForce U c) = decipherWithShift c (snd (breakCipherBruteForce U c))
   \<and> breakCipherBruteForce U c =
       (let b = foldl (tryShift U c) initialBest [0..25] in (bestPlaintext b, bestShift b))
   \<and> (\<forall>b s. shiftScore U c s \<le> bestScore b \<longrightarrow> tryShift U c b s = b)
   \<and> (\<forall>b s. bestScore b < shiftScore U c s \<longrightarrow> tryShift U c b s = candidate U c s)
   \<and> bestScore initialBest = - 1
   \<and> tryShift U c initialBest 0 = candidate U c 0"
proof -
  from brute_result [of U c] obtain k where
    k: "breakCipherBruteForce U c = (decipherWithShift c k, k)" "0 \<le> k" "k \<le> 25"
    and all: "\<forall>j. 0 \<le> j \<and> j \<le> 25 \<longrightarrow> shiftScore U c j \<le> shiftScore U c k"
    and lower: "\<forall>j. 0 \<le> j \<and> j < k \<longrightarrow> shiftScore U c j < shiftScore U c k"
    by blast
  have mx: "Max (shiftScore U c ` {0..25}) = shiftScore U c k"
    using k(2,3) all by (rule max_score)
  have "Min {j \<in> {0..25}. shiftScore U c j = shiftScore U c k} = k"
  proof (rule Min_eqI)
    show "finite {j \<in> {0..25}. shiftScore U c j = shiftScore U c k}"
      using finite_atLeastAtMost_int [of 0 25] by (rule rev_finite_subset) auto
    show "k \<in> {j \<in> {0..25}. shiftScore U c j = shiftScore U c k}" using k(2,3) by simp
    fix y assume y: "y \<in> {j \<in> {0..25}. shiftScore U c j = shiftScore U c k}"
    show "k \<le> y"
    proof (rule ccontr)
      assume "\<not> k \<le> y"
      with y have "0 \<le> y \<and> y < k" by simp
      with lower have "shiftScore U c y < shiftScore U c k" by blast
      with y show False by simp
    qed
  qed
  then have first: "snd (breakCipherBruteForce U c)
     = Min {k \<in> {0..25}. shiftScore U c k = Max (shiftScore U c ` {0..25})}"
    by (simp add: mx k(1))
  have loop: "breakCipherBruteForce U c =
       (let b = foldl (tryShift U c) initialBest [0..25] in (bestPlaintext b, bestShift b))"
    by (simp add: breakCipherBruteForce_def bruteLoop_foldl)
  have "0 \<le> shiftScore U c 0" by (rule shiftScore_nonneg)
  then have zero: "tryShift U c initialBest 0 = candidate U c 0"
    by (simp add: tryShift_eq initialBest_def)
  have second: "fst (breakCipherBruteForce U c)
      = decipherWithShift c (snd (breakCipherBruteForce U c))"
    by (simp add: k(1))
  have keep: "\<forall>b s. shiftScore U c s \<le> bestScore b \<longrightarrow> tryShift U c b s = b"
    by (simp add: tryShift_eq)
  have repl: "\<forall>b s. bestScore b < shiftScore U c s \<longrightarrow> tryShift U c b s = candidate U c s"
    by (simp add: tryShift_eq)
  have init: "bestScore initialBest = - 1" by (simp add: initialBest_def)
  from first second loop keep repl init zero show ?thesis by blast
qed

theorem C5_first_maximum_wins_witness:
  "breakCipherBruteForce caseless (runes ''WKH'') = (runes ''THE'', 3)
   \<and> shiftScore caseless (runes ''WKH'') 3 = 1
   \<and> shiftScore caseless (runes ''WKH'') 5 \<le> bestScore (candidate caseless (runes ''WKH'') 3)
   \<and> tryShift caseless (runes ''WKH'') (candidate caseless (runes ''WKH'') 3) 5
       = candidate caseless (runes ''WKH'') 3
   \<and> bestScore (candidate caseless (runes ''WKH'') 0) < shiftScore caseless (runes ''WKH'') 3
   \<and> tryShift caseless (runes ''WKH'') (candidate caseless (runes ''WKH'') 0) 3
       = candidate caseless (runes ''WKH'') 3"
proof -
  let ?c = "runes ''WKH''"
  have v: "breakCipherBruteForce caseless ?c = (runes ''THE'', 3)"
    "shiftScore caseless ?c 3 = 1" by code_simp+
  have le: "shiftScore caseless ?c 5 \<le> bestScore (candidate caseless ?c 3)" by code_simp
  have lt: "bestScore (candidate caseless ?c 0) < shiftScore caseless ?c 3" by code_simp
  from C5_first_maximum_wins [of caseless ?c] have
    keep: "\<forall>b s. shiftScore caseless ?c s \<le> bestScore b \<longrightarrow> tryShift caseless ?c b s = b"
    and repl: "\<forall>b s. bestScore b < shiftScore caseless ?c s
                \<longrightarrow> tryShift caseless ?c b s = candidate caseless ?c s"
    by blast+
  from keep le have "tryShift caseless ?c (candidate caseless ?c 3) 5 = candidate caseless ?c 3"
    by blast
  moreover from repl lt
  have "tryShift caseless ?c (candidate caseless ?c 0) 3 = candidate caseless ?c 3"
    by blast
  ultimately show ?thesis using v le lt by blast
qed

text \<open>
  Claim C2 (both searches cover the 26 shifts). The list of shifts the frequency search
  builds from a frequency order holds every shift from 0 to 25 once: it has 26
  entries, no entry twice (also when the preferred shift is 0), and its entries are
  the shifts 0 to 25. So the score of the plaintext the frequency search returns is
  the greatest score of the 26 shifts, as is the score of the plaintext the
  exhaustive search returns.
\<close>

theorem C2_same_maximum_score:
  "distinct (candidateShifts freqOrder)
   \<and> set (candidateShifts freqOrder) = {0..25}
   \<and> length (candidateShifts freqOrder) = 26
   \<and> candidateShifts (69 # rest) = [0..25]
   \<and> scoreDecipheredText U (fst (breakCipherFrequencyAnalysis U mapRange c))
       = Max (shiftScore U c ` {0..25})
   \<and> scoreDecipheredText U (fst (breakCipherBruteForce U c))
       = Max (shiftScore U c ` {0..25})
   \<and> scoreDecipheredText U (fst (breakCipherFrequencyAnalysis U mapRange c))
       = scoreDecipheredText U (fst (breakCipherBruteForce U c))"
proof -
  from brute_result [of U c] obtain k where
    k: "breakCipherBruteForce U c = (decipherWithShift c k, k)" "0 \<le> k" "k \<le> 25"
    "\<forall>j. 0 \<le> j \<and> j \<le> 25 \<longrightarrow> shiftScore U c j \<le> shiftScore U c k"
    by blast
  from either_result [of U mapRange c] obtain m where
    m: "breakCipherFrequencyAnalysis U mapRange c = (decipherWithShift c m, m)" "0 \<le> m" "m \<le> 25"
    "\<forall>j. 0 \<le> j \<and> j \<le> 25 \<longrightarrow> shiftScore U c j \<le> shiftScore U c m"
    by blast
  have mk: "Max (shiftScore U c ` {0..25}) = shiftScore U c k"
    using k(2,3,4) by (rule max_score)
  have mm: "Max (shiftScore U c ` {0..25}) = shiftScore U c m"
    using m(2,3,4) by (rule max_score)
  have e: "eShiftOf 69 = 0" by (simp add: eShiftOf_def trunc_mod_def)
  have "filter (\<lambda>s. s \<noteq> 0) [1..25] = [1..25]" by (rule filter_True) simp
  then have zero: "candidateShifts (69 # rest) = [0..25]"
    by (simp add: candidateShifts_eq e upto_rec1 [of 0 25])
  have "scoreDecipheredText U (fst (breakCipherBruteForce U c)) = Max (shiftScore U c ` {0..25})"
    using mk by (simp add: k(1) shiftScore_def)
  moreover have "scoreDecipheredText U (fst (breakCipherFrequencyAnalysis U mapRange c))
       = Max (shiftScore U c ` {0..25})"
    using mm by (simp add: m(1) shiftScore_def)
  ultimately show ?thesis
    using zero candidateShifts_distinct [of freqOrder] candidateShifts_set [of freqOrder]
      candidateShifts_length [of freqOrder]
    by simp
qed

section \<open>The functions on sample inputs\<close>

text \<open>
  Sample inputs, among them those of section 8 of the specification, computed with
  the definitions above.
\<close>

lemma sample_encode: "applyCipher (runes ''Hello, World!'') 3 = runes ''Khoor, Zruog!''"
  by code_simp

lemma sample_encode_negative: "applyCipher (runes ''Hello, World!'') (- 23) = runes ''Khoor, Zruog!''"
  by code_simp

lemma sample_decode: "decipherWithShift (runes ''Khoor, Zruog!'') 29 = runes ''Hello, World!''"
  by code_simp

lemma sample_scores:
  "scoreDecipheredText caseless (runes ''THE AND OF'') = 5"
  "scoreDecipheredText caseless (runes ''ZQX VWK PLM'') = 2"
  by code_simp+

lemma sample_brute_force:
  "breakCipherBruteForce caseless (applyCipher (runes ''THE QUICK BROWN FOX'') 7)
     = (runes ''THE QUICK BROWN FOX'', 7)"
  by code_simp

lemma sample_frequency:
  "breakCipherFrequencyAnalysis caseless alphabetical (applyCipher (runes ''THE QUICK BROWN FOX'') 7)
     = (runes ''THE QUICK BROWN FOX'', 7)"
  by code_simp

lemma sample_frequency_order:
  "getFrequencyOrder (alphabetical (calculateFrequencies caseless (runes ''hello world'')))
     (calculateFrequencies caseless (runes ''hello world'')) = runes ''LODEHRW''"
  by code_simp

end
